theory Spec2Isabelle
  imports Main
begin

section \<open>The LRU-cache wrapper of lru\_cache.py\<close>

text \<open>
  The source file defines \<^verbatim>\<open>lru_cache(func, maxsize=128)\<close>, which returns the closure
  \<^verbatim>\<open>inner\<close> over the variables \<^verbatim>\<open>cache\<close> (an OrderedDict), \<^verbatim>\<open>hits\<close> and
  \<^verbatim>\<open>misses\<close>, and the helper \<^verbatim>\<open>add_to_cache\<close>. The closure is modelled as a record
  that is passed to \<^verbatim>\<open>inner\<close> and returned updated.
\<close>

subsection \<open>Exceptions\<close>

text \<open>
  The exceptions that can arise: \<^verbatim>\<open>KeyError\<close>, which the OrderedDict methods raise, and
  whatever the wrapped function raises (\<open>Raised e\<close>). The wrapped function returns a
  value of the same exception type on failure, so that propagation is the identity.
\<close>

datatype 'e exn = KeyError | Raised 'e

subsection \<open>OrderedDict\<close>

text \<open>
  An OrderedDict is the list of its items, oldest first. Only the operations the source
  calls are modelled. Keys are values of a type \<open>'k\<close> with equality, that is, hashable
  objects: an unhashable argument, on which \<^verbatim>\<open>key in cache\<close> raises TypeError, is outside
  the model. \<open>maxsize\<close> is a Python integer, of any sign.
\<close>

type_synonym ('k, 'v) ordered_dict = "('k \<times> 'v) list"

text \<open>\<^verbatim>\<open>key in cache\<close>\<close>

definition od_contains :: "'k \<Rightarrow> ('k, 'v) ordered_dict \<Rightarrow> bool" where
  "od_contains key od = (map_of od key \<noteq> None)"

text \<open>\<^verbatim>\<open>cache[key]\<close>: KeyError for a missing key.\<close>

definition od_getitem :: "('k, 'v) ordered_dict \<Rightarrow> 'k \<Rightarrow> 'e exn + 'v" where
  "od_getitem od key = (case map_of od key of None \<Rightarrow> Inl KeyError | Some v \<Rightarrow> Inr v)"

text \<open>
  \<^verbatim>\<open>cache[key] = value\<close>: the value of a present key is replaced where the key stands,
  a new key is appended at the end.
\<close>

fun od_setitem :: "('k, 'v) ordered_dict \<Rightarrow> 'k \<Rightarrow> 'v \<Rightarrow> ('k, 'v) ordered_dict" where
  "od_setitem [] key val = [(key, val)]"
| "od_setitem ((k, v) # od) key val =
     (if k = key then (k, val) # od else (k, v) # od_setitem od key val)"

text \<open>\<^verbatim>\<open>cache.move_to_end(key)\<close>: KeyError for a missing key.\<close>

definition od_move_to_end :: "('k, 'v) ordered_dict \<Rightarrow> 'k \<Rightarrow> 'e exn + ('k, 'v) ordered_dict" where
  "od_move_to_end od key =
     (case map_of od key of
        None \<Rightarrow> Inl KeyError
      | Some v \<Rightarrow> Inr (filter (\<lambda>p. fst p \<noteq> key) od @ [(key, v)]))"

text \<open>\<^verbatim>\<open>cache.popitem(last=False)\<close>: removes the oldest item; KeyError when empty.\<close>

definition od_popitem_first ::
  "('k, 'v) ordered_dict \<Rightarrow> 'e exn + (('k \<times> 'v) \<times> ('k, 'v) ordered_dict)" where
  "od_popitem_first od = (case od of [] \<Rightarrow> Inl KeyError | p # ps \<Rightarrow> Inr (p, ps))"

subsection \<open>add\_to\_cache\<close>

text \<open>
  The dictionary is mutated in place, so the function returns the dictionary as it is
  when the call ends, together with the exception that ended it, if any.
\<close>

definition add_to_cache ::
  "int \<Rightarrow> ('k, 'v) ordered_dict \<Rightarrow> 'k \<Rightarrow> 'v \<Rightarrow> 'e exn option \<times> ('k, 'v) ordered_dict" where
  "add_to_cache maxsize cache key val =
     (let c1 = od_setitem cache key val in
      case od_move_to_end c1 key of
        Inl e \<Rightarrow> (Some e, c1)
      | Inr c2 \<Rightarrow>
          if int (length c2) > maxsize then
            (case od_popitem_first c2 of
               Inl e \<Rightarrow> (Some e, c2)
             | Inr (_, c3) \<Rightarrow> (None, c3))
          else (None, c2))"

subsection \<open>The closure\<close>

text \<open>
  \<open>func\<close> and \<open>maxsize\<close> are the arguments of \<^verbatim>\<open>lru_cache\<close>, \<open>cache\<close>, \<open>hits\<close> and
  \<open>misses\<close> its local variables. \<open>calls\<close> is not a variable of the source: it records,
  in order, the argument tuples \<open>func\<close> has been invoked with, so that properties about
  how often the wrapped function runs can be stated.
\<close>

record ('k, 'v, 'e) lru =
  func :: "'k list \<Rightarrow> 'e exn + 'v"
  maxsize :: int
  cache :: "('k, 'v) ordered_dict"
  hits :: nat
  misses :: nat
  calls :: "'k list list"

text \<open>\<^verbatim>\<open>lru_cache(func, maxsize=128)\<close>: the parameter \<open>maxsize\<close> is optional.\<close>

definition lru_cache :: "('k list \<Rightarrow> 'e exn + 'v) \<Rightarrow> int option \<Rightarrow> ('k, 'v, 'e) lru" where
  "lru_cache f m =
     \<lparr>func = f, maxsize = (case m of None \<Rightarrow> 128 | Some n \<Rightarrow> n),
      cache = [], hits = 0, misses = 0, calls = []\<rparr>"

text \<open>
  The body of the loop \<^verbatim>\<open>for key in args\<close> for one key. Every path through it ends at
  \<^verbatim>\<open>return result\<close> or at an exception. The result \<open>Inr (Some v)\<close> is a returned value.
\<close>

definition inner_body ::
  "('k, 'v, 'e) lru \<Rightarrow> 'k list \<Rightarrow> 'k \<Rightarrow> ('e exn + 'v option) \<times> ('k, 'v, 'e) lru" where
  "inner_body w args key =
     (if \<not> od_contains key (cache w) then
        let w1 = w\<lparr>misses := misses w + 1\<rparr>;
            w2 = w1\<lparr>calls := calls w1 @ [args]\<rparr>
        in case func w args of
             Inl e \<Rightarrow> (Inl e, w2)
           | Inr result \<Rightarrow>
               let (ex, c) = add_to_cache (maxsize w2) (cache w2) key result;
                   w3 = w2\<lparr>cache := c\<rparr>
               in (case ex of Some e \<Rightarrow> (Inl e, w3) | None \<Rightarrow> (Inr (Some result), w3))
      else
        let w1 = w\<lparr>hits := hits w + 1\<rparr>
        in case od_getitem (cache w1) key of
             Inl e \<Rightarrow> (Inl e, w1)
           | Inr result \<Rightarrow>
               let (ex, c) = add_to_cache (maxsize w1) (cache w1) key result;
                   w3 = w1\<lparr>cache := c\<rparr>
               in (case ex of Some e \<Rightarrow> (Inl e, w3) | None \<Rightarrow> (Inr (Some result), w3)))"

text \<open>
  The loop over the remaining keys. The body returns in its first iteration, so there is
  no recursive call; with no key left the function falls off its end and returns None
  (\<open>Inr None\<close>).
\<close>

fun inner_loop ::
  "('k, 'v, 'e) lru \<Rightarrow> 'k list \<Rightarrow> 'k list \<Rightarrow> ('e exn + 'v option) \<times> ('k, 'v, 'e) lru" where
  "inner_loop w args [] = (Inr None, w)"
| "inner_loop w args (key # _) = inner_body w args key"

definition inner ::
  "('k, 'v, 'e) lru \<Rightarrow> 'k list \<Rightarrow> ('e exn + 'v option) \<times> ('k, 'v, 'e) lru" where
  "inner w args = inner_loop w args args"

text \<open>\<^verbatim>\<open>CacheInfo(hits, misses, maxsize, len(cache))\<close>\<close>

datatype cache_info_t = CacheInfo nat nat int nat

definition cache_info :: "('k, 'v, 'e) lru \<Rightarrow> cache_info_t" where
  "cache_info w = CacheInfo (hits w) (misses w) (maxsize w) (length (cache w))"

subsection \<open>Sequences of calls\<close>

text \<open>
  A caller that calls the wrapper with each argument tuple of a list in turn, going on
  after an exception: \<open>trace\<close> lists the outcome and the closure after every call,
  \<open>exec\<close> gives the closure after the last one.
\<close>

fun trace ::
  "('k, 'v, 'e) lru \<Rightarrow> 'k list list \<Rightarrow> (('e exn + 'v option) \<times> ('k, 'v, 'e) lru) list" where
  "trace w [] = []"
| "trace w (args # rest) = inner w args # trace (snd (inner w args)) rest"

fun exec :: "('k, 'v, 'e) lru \<Rightarrow> 'k list list \<Rightarrow> ('k, 'v, 'e) lru" where
  "exec w [] = w"
| "exec w (args # rest) = exec (snd (inner w args)) rest"

text \<open>The items of the cache are at most \<open>maxsize\<close>, unless there are none, and their keys differ.\<close>

definition lru_inv :: "('k, 'v, 'e) lru \<Rightarrow> bool" where
  "lru_inv w = (distinct (map fst (cache w)) \<and>
     (cache w = [] \<or> int (length (cache w)) \<le> maxsize w))"

section \<open>Properties of the OrderedDict operations and of add\_to\_cache\<close>

lemma od_setitem_absent: "map_of c k = None \<Longrightarrow> od_setitem c k v = c @ [(k, v)]"
  by (induction c) (auto split: if_splits)

lemma od_setitem_present: "map_of c k = Some v \<Longrightarrow> od_setitem c k v = c"
  by (induction c) (auto split: if_splits)

lemma map_of_od_setitem: "map_of (od_setitem c k v) k = Some v"
  by (induction c) auto

lemma length_od_setitem: "length (od_setitem c k v) \<le> Suc (length c)"
  by (induction c) auto

lemma map_fst_od_setitem:
  "map fst (od_setitem c k v) = (if k \<in> set (map fst c) then map fst c else map fst c @ [k])"
  by (induction c) (auto split: if_splits)

lemma distinct_od_setitem:
  "distinct (map fst c) \<Longrightarrow> distinct (map fst (od_setitem c k v))"
  by (simp add: map_fst_od_setitem)

lemma filter_absent: "map_of c k = None \<Longrightarrow> filter (\<lambda>p. fst p \<noteq> k) c = c"
  by (induction c) (auto split: if_splits)

lemma length_filter_present:
  "map_of c k = Some v \<Longrightarrow> length (filter (\<lambda>p. fst p \<noteq> k) c) < length c"
  by (induction c) (auto split: if_splits simp: less_Suc_eq_le)

lemma length_filter_distinct:
  "distinct (map fst c) \<Longrightarrow> map_of c k = Some v \<Longrightarrow>
   Suc (length (filter (\<lambda>p. fst p \<noteq> k) c)) = length c"
proof (induction c)
  case Nil
  then show ?case by simp
next
  case (Cons p c)
  show ?case
  proof (cases "fst p = k")
    case True
    with Cons.prems have "k \<notin> fst ` set c" by auto
    then have "map_of c k = None" by (simp add: map_of_eq_None_iff)
    then have "filter (\<lambda>p. fst p \<noteq> k) c = c" by (rule filter_absent)
    with True show ?thesis by simp
  next
    case False
    with Cons show ?thesis by (cases p) auto
  qed
qed

lemma od_popitem_first_snoc:
  "od_popitem_first (xs @ [y]) = Inr (hd (xs @ [y]), tl (xs @ [y]))"
  by (cases xs) (simp_all add: od_popitem_first_def)

lemma add_to_cache_absent:
  fixes c :: "('k, 'v) ordered_dict"
  assumes "map_of c k = None"
  shows "add_to_cache m c k v =
    (None, if int (length c) + 1 > m then tl (c @ [(k, v)]) else c @ [(k, v)])"
proof -
  have s: "od_setitem c k v = c @ [(k, v)]" using assms by (rule od_setitem_absent)
  have l: "map_of (c @ [(k, v)]) k = Some v" using assms by (simp add: map_add_def)
  have f: "filter (\<lambda>p. fst p \<noteq> k) c = c" using assms by (rule filter_absent)
  have mv: "od_move_to_end (c @ [(k, v)]) k = (Inr (c @ [(k, v)]) :: 'e exn + ('k, 'v) ordered_dict)"
    unfolding od_move_to_end_def using l f by simp
  show ?thesis
    unfolding add_to_cache_def Let_def s mv
    by (simp add: od_popitem_first_snoc)
qed

lemma add_to_cache_present:
  fixes c :: "('k, 'v) ordered_dict"
  assumes "distinct (map fst c)" and "map_of c k = Some v"
  shows "add_to_cache m c k v =
    (None, if int (length c) > m then tl (filter (\<lambda>p. fst p \<noteq> k) c @ [(k, v)])
           else filter (\<lambda>p. fst p \<noteq> k) c @ [(k, v)])"
proof -
  have s: "od_setitem c k v = c" using assms(2) by (rule od_setitem_present)
  have mv: "od_move_to_end c k =
      (Inr (filter (\<lambda>p. fst p \<noteq> k) c @ [(k, v)]) :: 'e exn + ('k, 'v) ordered_dict)"
    unfolding od_move_to_end_def using assms(2) by simp
  have len: "length (filter (\<lambda>p. fst p \<noteq> k) c @ [(k, v)]) = length c"
    using length_filter_distinct [OF assms] by simp
  show ?thesis
    unfolding add_to_cache_def Let_def s mv
    by (simp only: len od_popitem_first_snoc sum.case prod.case split: if_splits) simp
qed

section \<open>One call of the wrapper\<close>

lemma inner_nil: "inner w [] = (Inr None, w)"
  by (simp add: inner_def)

lemma inner_miss_ok:
  assumes "\<not> od_contains key (cache w)" and "func w (key # rest) = Inr v"
  shows "inner w (key # rest) =
    (Inr (Some v),
     w\<lparr>cache := (if int (length (cache w)) + 1 > maxsize w
                  then tl (cache w @ [(key, v)]) else cache w @ [(key, v)]),
       misses := misses w + 1, calls := calls w @ [key # rest]\<rparr>)"
proof -
  have "map_of (cache w) key = None" using assms(1) by (simp add: od_contains_def)
  then show ?thesis
    using assms by (simp add: inner_def inner_body_def add_to_cache_absent)
qed

lemma inner_miss_raise:
  assumes "\<not> od_contains key (cache w)" and "func w (key # rest) = Inl e"
  shows "inner w (key # rest) =
    (Inl e, w\<lparr>misses := misses w + 1, calls := calls w @ [key # rest]\<rparr>)"
  using assms by (simp add: inner_def inner_body_def)

lemma inner_hit:
  assumes "lru_inv w" and "map_of (cache w) key = Some v"
  shows "inner w (key # rest) =
    (Inr (Some v),
     w\<lparr>cache := filter (\<lambda>p. fst p \<noteq> key) (cache w) @ [(key, v)], hits := hits w + 1\<rparr>)"
proof -
  have d: "distinct (map fst (cache w))" using assms(1) by (simp add: lru_inv_def)
  have "cache w \<noteq> []" using assms(2) by auto
  then have l: "int (length (cache w)) \<le> maxsize w" using assms(1) by (simp add: lru_inv_def)
  have c: "od_contains key (cache w)" using assms(2) by (simp add: od_contains_def)
  show ?thesis
    using c l assms(2)
    by (simp add: inner_def inner_body_def od_getitem_def add_to_cache_present [OF d assms(2)])
qed

lemma lru_inv_inner: "lru_inv w \<Longrightarrow> lru_inv (snd (inner w args))"
proof (cases args)
  case Nil
  assume "lru_inv w"
  with Nil show ?thesis by (simp add: inner_nil)
next
  case (Cons key rest)
  assume inv: "lru_inv w"
  show ?thesis
  proof (cases "map_of (cache w) key")
    case None
    then have nc: "\<not> od_contains key (cache w)" by (simp add: od_contains_def)
    from None have nk: "key \<notin> fst ` set (cache w)" by (simp add: map_of_eq_None_iff)
    show ?thesis
    proof (cases "func w (key # rest)")
      case (Inl e)
      with inv nc Cons show ?thesis by (simp add: inner_miss_raise lru_inv_def)
    next
      case (Inr v)
      have d: "distinct (map fst (cache w @ [(key, v)]))"
        using inv nk by (simp add: lru_inv_def)
      have "lru_inv (w\<lparr>cache := (if int (length (cache w)) + 1 > maxsize w
                  then tl (cache w @ [(key, v)]) else cache w @ [(key, v)]),
       misses := misses w + 1, calls := calls w @ [key # rest]\<rparr>)"
      proof (cases "int (length (cache w)) + 1 > maxsize w")
        case True
        have "distinct (map fst (tl (cache w @ [(key, v)])))"
          using d by (simp only: map_tl distinct_tl)
        moreover have "tl (cache w @ [(key, v)]) = [] \<or>
            int (length (tl (cache w @ [(key, v)]))) \<le> maxsize w"
          using inv by (cases "cache w") (auto simp: lru_inv_def)
        ultimately show ?thesis using True by (simp add: lru_inv_def)
      next
        case False
        with d show ?thesis by (simp add: lru_inv_def)
      qed
      with Cons nc Inr show ?thesis by (simp add: inner_miss_ok)
    qed
  next
    case (Some v)
    have "distinct (map fst (filter (\<lambda>p. fst p \<noteq> key) (cache w) @ [(key, v)]))"
      using inv by (auto simp: lru_inv_def distinct_map_filter)
    moreover have "length (filter (\<lambda>p. fst p \<noteq> key) (cache w) @ [(key, v)]) = length (cache w)"
      using inv Some by (simp add: lru_inv_def length_filter_distinct)
    moreover have "int (length (cache w)) \<le> maxsize w"
      using inv Some by (auto simp: lru_inv_def)
    ultimately have "lru_inv (w\<lparr>cache := filter (\<lambda>p. fst p \<noteq> key) (cache w) @ [(key, v)],
        hits := hits w + 1\<rparr>)"
      by (simp add: lru_inv_def del: length_append)
    with Cons show ?thesis by (simp add: inner_hit [OF inv Some])
  qed
qed

lemma lru_inv_exec: "lru_inv w \<Longrightarrow> lru_inv (exec w argss)"
  by (induction argss arbitrary: w) (simp_all add: lru_inv_inner)

lemma lru_inv_lru_cache: "lru_inv (lru_cache f m)"
  by (simp add: lru_inv_def lru_cache_def)

lemma exec_append: "exec w (xs @ ys) = exec (exec w xs) ys"
  by (induction xs arbitrary: w) simp_all

section \<open>Counters and the parts of the closure that never change\<close>

lemma frame_inner:
  "func (snd (inner w args)) = func w \<and> maxsize (snd (inner w args)) = maxsize w"
  by (cases args)
     (auto simp: inner_def inner_body_def Let_def split: sum.splits prod.splits option.splits)

lemma frame_exec: "func (exec w argss) = func w \<and> maxsize (exec w argss) = maxsize w"
  by (induction argss arbitrary: w) (simp_all add: frame_inner)

lemma counters_inner:
  "args \<noteq> [] \<Longrightarrow>
   (hits (snd (inner w args)) = hits w + 1 \<and> misses (snd (inner w args)) = misses w) \<or>
   (hits (snd (inner w args)) = hits w \<and> misses (snd (inner w args)) = misses w + 1)"
  by (cases args)
     (auto simp: inner_def inner_body_def Let_def split: sum.splits prod.splits option.splits)

lemma counters_mono_inner:
  "hits w \<le> hits (snd (inner w args)) \<and> misses w \<le> misses (snd (inner w args))"
  by (cases args)
     (auto simp: inner_def inner_body_def Let_def split: sum.splits prod.splits option.splits)

lemma counters_mono_exec:
  "hits w \<le> hits (exec w argss) \<and> misses w \<le> misses (exec w argss)"
proof (induction argss arbitrary: w)
  case Nil
  show ?case by simp
next
  case (Cons args argss)
  have "hits w \<le> hits (snd (inner w args))" "misses w \<le> misses (snd (inner w args))"
    using counters_mono_inner [of w args] by simp_all
  moreover have "hits (snd (inner w args)) \<le> hits (exec (snd (inner w args)) argss)"
    "misses (snd (inner w args)) \<le> misses (exec (snd (inner w args)) argss)"
    using Cons.IH [of "snd (inner w args)"] by simp_all
  ultimately show ?case by simp
qed

lemma counters_sum_exec:
  "hits (exec w argss) + misses (exec w argss) =
   hits w + misses w + length (filter (\<lambda>args. args \<noteq> []) argss)"
proof (induction argss arbitrary: w)
  case Nil
  show ?case by simp
next
  case (Cons args argss)
  show ?case
  proof (cases "args = []")
    case True
    then show ?thesis using Cons.IH [of w] by (simp add: inner_nil)
  next
    case False
    then have "hits (snd (inner w args)) + misses (snd (inner w args)) = hits w + misses w + 1"
      using counters_inner [of args w] by auto
    then show ?thesis using False Cons.IH [of "snd (inner w args)"] by simp
  qed
qed

lemma never_raises_KeyError_add: "fst (add_to_cache m c k v) = None"
proof -
  have l: "map_of (od_setitem c k v) k = Some v" by (rule map_of_od_setitem)
  show ?thesis
    by (simp add: add_to_cache_def Let_def od_move_to_end_def l od_popitem_first_snoc)
qed

section \<open>Which keys a call can touch\<close>

lemma keys_add_to_cache:
  "set (map fst (snd (add_to_cache m c k v :: 'e exn option \<times> ('k, 'v) ordered_dict)))
     \<subseteq> insert k (set (map fst c))"
proof -
  let ?c2 = "filter (\<lambda>p. fst p \<noteq> k) (od_setitem c k v) @ [(k, v)]"
  let ?r = "snd (add_to_cache m c k v :: 'e exn option \<times> ('k, 'v) ordered_dict)"
  have l: "map_of (od_setitem c k v) k = Some v" by (rule map_of_od_setitem)
  have "set (map fst (od_setitem c k v)) \<subseteq> insert k (set (map fst c))"
    by (auto simp: map_fst_od_setitem)
  then have k2: "set (map fst ?c2) \<subseteq> insert k (set (map fst c))" by auto
  have "set (tl ?c2) \<subseteq> set ?c2" by (cases ?c2) auto
  then have "set (map fst (tl ?c2)) \<subseteq> set (map fst ?c2)" by auto
  with k2 have k3: "set (map fst (tl ?c2)) \<subseteq> insert k (set (map fst c))" by blast
  have "?r = ?c2 \<or> ?r = tl ?c2"
    by (simp add: add_to_cache_def Let_def od_move_to_end_def l od_popitem_first_snoc)
  then show ?thesis
  proof
    assume "?r = ?c2"
    with k2 show ?thesis by (simp only:)
  next
    assume "?r = tl ?c2"
    with k3 show ?thesis by (simp only:)
  qed
qed

lemma keys_inner:
  fixes w :: "('k, 'v, 'e) lru"
  shows "set (map fst (cache (snd (inner w (key # rest))))) \<subseteq> insert key (set (map fst (cache w)))"
proof (cases "od_contains key (cache w)")
  case True
  show ?thesis
  proof (cases "od_getitem (cache w) key :: 'e exn + 'v")
    case (Inl e)
    with True show ?thesis by (auto simp: inner_def inner_body_def)
  next
    case (Inr v)
    have "cache (snd (inner w (key # rest))) =
        snd (add_to_cache (maxsize w) (cache w) key v :: 'e exn option \<times> ('k, 'v) ordered_dict)"
      using True Inr
      by (simp add: inner_def inner_body_def Let_def split: prod.splits option.splits)
    then show ?thesis using keys_add_to_cache [of "maxsize w" "cache w" key v] by simp
  qed
next
  case False
  show ?thesis
  proof (cases "func w (key # rest)")
    case (Inl e)
    with False show ?thesis by (auto simp: inner_def inner_body_def)
  next
    case (Inr v)
    have "cache (snd (inner w (key # rest))) =
        snd (add_to_cache (maxsize w) (cache w) key v :: 'e exn option \<times> ('k, 'v) ordered_dict)"
      using False Inr
      by (simp add: inner_def inner_body_def Let_def split: prod.splits option.splits)
    then show ?thesis using keys_add_to_cache [of "maxsize w" "cache w" key v] by simp
  qed
qed

lemma inner_hit_any_args:
  "od_contains key (cache w) \<Longrightarrow> inner w (key # rest) = inner w [key]"
  by (simp add: inner_def inner_body_def)

section \<open>Hits and the invariant along a sequence of calls\<close>

lemma hit_preserves:
  assumes "lru_inv w" and "map_of (cache w) key = Some v"
  shows "lru_inv (snd (inner w (key # rest))) \<and>
         map_of (cache (snd (inner w (key # rest)))) key = Some v \<and>
         length (cache (snd (inner w (key # rest)))) = length (cache w) \<and>
         calls (snd (inner w (key # rest))) = calls w \<and>
         hits (snd (inner w (key # rest))) = hits w + 1 \<and>
         misses (snd (inner w (key # rest))) = misses w"
proof -
  have d: "distinct (map fst (cache w))" using assms(1) by (simp add: lru_inv_def)
  have "Suc (length (filter (\<lambda>p. fst p \<noteq> key) (cache w))) = length (cache w)"
    using d assms(2) by (rule length_filter_distinct)
  moreover have "map_of (filter (\<lambda>p. fst p \<noteq> key) (cache w) @ [(key, v)]) key = Some v"
  proof -
    have "key \<notin> fst ` set (filter (\<lambda>p. fst p \<noteq> key) (cache w))" by auto
    then have "map_of (filter (\<lambda>p. fst p \<noteq> key) (cache w)) key = None"
      by (auto simp: map_of_eq_None_iff)
    then show ?thesis by (simp add: map_add_def)
  qed
  ultimately show ?thesis
    using lru_inv_inner [OF assms(1), of "key # rest"]
    by (simp add: inner_hit [OF assms])
qed

lemma repeated_hits:
  assumes "lru_inv w" and "map_of (cache w) key = Some v"
    and "list_all (\<lambda>a. a \<noteq> [] \<and> hd a = key) hs"
  shows "length (cache (exec w hs)) = length (cache w) \<and>
         calls (exec w hs) = calls w \<and>
         hits (exec w hs) = hits w + length hs \<and>
         misses (exec w hs) = misses w \<and>
         map fst (trace w hs) = replicate (length hs) (Inr (Some v))"
  using assms
proof (induction hs arbitrary: w)
  case Nil
  show ?case by simp
next
  case (Cons a hs)
  from Cons.prems(3) obtain rest where a: "a = key # rest" by (cases a) auto
  from Cons.prems(3) have hs: "list_all (\<lambda>a. a \<noteq> [] \<and> hd a = key) hs" by simp
  note h = hit_preserves [OF Cons.prems(1,2), of rest]
  have r: "fst (inner w (key # rest)) = Inr (Some v)"
    by (simp add: inner_hit [OF Cons.prems(1,2)])
  from h have i: "lru_inv (snd (inner w (key # rest)))"
    and m: "map_of (cache (snd (inner w (key # rest)))) key = Some v" by simp_all
  from Cons.IH [OF i m hs] h r show ?case by (simp add: a)
qed

lemma lru_inv_trace:
  "lru_inv w \<Longrightarrow> x \<in> set (trace w argss) \<Longrightarrow> lru_inv (snd x) \<and> maxsize (snd x) = maxsize w"
proof (induction argss arbitrary: w)
  case Nil
  then show ?case by simp
next
  case (Cons args argss)
  from Cons.prems(2) have "x = inner w args \<or> x \<in> set (trace (snd (inner w args)) argss)"
    by simp
  then show ?case
  proof
    assume "x = inner w args"
    then show ?thesis using Cons.prems(1) by (simp add: lru_inv_inner frame_inner)
  next
    assume x: "x \<in> set (trace (snd (inner w args)) argss)"
    have "lru_inv (snd (inner w args))" using Cons.prems(1) by (rule lru_inv_inner)
    from Cons.IH [OF this x] show ?thesis by (simp add: frame_inner)
  qed
qed

lemma lru_inv_size: "lru_inv w \<Longrightarrow> 0 < maxsize w \<Longrightarrow> int (length (cache w)) \<le> maxsize w"
  by (auto simp: lru_inv_def)

section \<open>The claims\<close>

text \<open>
  C9. The constructor validates nothing: for every integer \<open>m\<close>, zero and the negative
  ones included, \<^verbatim>\<open>lru_cache(func, m)\<close> returns the closure with that \<open>maxsize\<close>, the
  given function, an empty cache and both counters at zero. The model of the
  constructor has no exception among its results because the source has no raise.
\<close>

theorem lru_cache_no_validation:
  "maxsize (lru_cache f (Some m)) = m \<and>
   func (lru_cache f (Some m)) = f \<and>
   cache (lru_cache f (Some m)) = [] \<and>
   cache_info (lru_cache f (Some m)) = CacheInfo 0 0 m 0"
  by (simp add: lru_cache_def cache_info_def)

text \<open>
  C10. A call with no positional argument returns None and leaves the whole closure as
  it was: cache, order, counters, and the record of the invocations of the wrapped
  function. In a sequence of calls made on a new wrapper, hits plus misses
  therefore falls short of the number of calls by the number of calls without argument.
\<close>

theorem inner_no_arguments:
  "inner w [] = (Inr None, w) \<and>
   hits (exec (lru_cache f m) argss) + misses (exec (lru_cache f m) argss)
     + length (filter (\<lambda>args. args = []) argss) = length argss"
proof -
  have "hits (exec (lru_cache f m) argss) + misses (exec (lru_cache f m) argss) =
      length (filter (\<lambda>args. args \<noteq> []) argss)"
    by (simp add: counters_sum_exec) (simp add: lru_cache_def)
  moreover have "length (filter (\<lambda>args. args \<noteq> []) argss)
      + length (filter (\<lambda>args. args = []) argss) = length argss"
    using sum_length_filter_compl [of "\<lambda>args. args \<noteq> []" argss] by simp
  ultimately show ?thesis by (simp add: inner_nil)
qed

text \<open>
  C6. When the key (the first argument) is not in the cache and the wrapped function
  raises \<open>e\<close>, the call raises the same \<open>e\<close>; the cache, with its order and its length,
  and the hit counter are as before; the miss counter, incremented before the wrapped
  function is called, is one higher; the wrapped function has been invoked once.
\<close>

theorem compute_failure:
  assumes "\<not> od_contains key (cache w)" and "func w (key # rest) = Inl e"
  shows "inner w (key # rest) =
           (Inl e, w\<lparr>misses := misses w + 1, calls := calls w @ [key # rest]\<rparr>) \<and>
         cache (snd (inner w (key # rest))) = cache w \<and>
         length (cache (snd (inner w (key # rest)))) = length (cache w) \<and>
         hits (snd (inner w (key # rest))) = hits w \<and>
         misses (snd (inner w (key # rest))) = misses w + 1"
  using assms by (simp add: inner_miss_raise)

theorem compute_failure_witness:
  "\<not> od_contains (2::nat)
      (cache (exec (lru_cache (\<lambda>args. if args = [1] then Inr (10::nat) else Inl (Raised ()))
                (Some 2)) [[1]])) \<and>
   inner (exec (lru_cache (\<lambda>args. if args = [1] then Inr (10::nat) else Inl (Raised ()))
                (Some 2)) [[1::nat]]) [2, 1] =
     (Inl (Raised ()),
      \<lparr>func = (\<lambda>args. if args = [1] then Inr (10::nat) else Inl (Raised ())),
       maxsize = 2, cache = [(1, 10)], hits = 0, misses = 2, calls = [[1], [2, 1]]\<rparr>)"
proof -
  let ?f = "\<lambda>args. if args = [1::nat] then Inr (10::nat) else Inl (Raised ())"
  have w: "exec (lru_cache ?f (Some 2)) [[1]] =
      \<lparr>func = ?f, maxsize = 2, cache = [(1, 10)], hits = 0, misses = 1, calls = [[1]]\<rparr>"
    by (simp add: lru_cache_def inner_def inner_body_def od_contains_def add_to_cache_def
        od_move_to_end_def)
  show ?thesis
    using compute_failure [of 2 "exec (lru_cache ?f (Some 2)) [[1]]" "[1]" "Raised ()"]
    unfolding w by (simp add: od_contains_def)
qed

text \<open>
  C3. When the key (the first argument) is not in the cache and the wrapped function
  returns \<open>v\<close>, the call returns \<open>v\<close>, the miss counter is one higher, the
  wrapped function has been invoked exactly once (with all the arguments), the item
  \<open>(key, v)\<close> is appended at the most recently used end of the cache and then, if
  the length exceeds \<open>maxsize\<close>, exactly the item at the least recently used end is
  removed. This holds in every state of the closure.
\<close>

theorem miss_step:
  assumes "\<not> od_contains key (cache w)" and "func w (key # rest) = Inr v"
  shows "inner w (key # rest) =
    (Inr (Some v),
     w\<lparr>cache := (if int (length (cache w @ [(key, v)])) > maxsize w
                  then tl (cache w @ [(key, v)]) else cache w @ [(key, v)]),
       misses := misses w + 1, calls := calls w @ [key # rest]\<rparr>)"
  using assms by (simp add: inner_miss_ok)

theorem miss_step_witness:
  "\<not> od_contains (3::nat)
      (cache \<lparr>func = (\<lambda>args. Inr (hd args * 10) :: unit exn + nat), maxsize = 2,
              cache = [(1, 10), (2, 20)], hits = 4, misses = 2, calls = [[1], [2]]\<rparr>) \<and>
   inner \<lparr>func = (\<lambda>args. Inr (hd args * 10) :: unit exn + nat), maxsize = 2,
          cache = [(1, 10), (2, 20)], hits = 4, misses = 2, calls = [[1], [2]]\<rparr> [3] =
     (Inr (Some 30),
      \<lparr>func = (\<lambda>args. Inr (hd args * 10)), maxsize = 2,
       cache = [(2, 20), (3, 30)], hits = 4, misses = 3, calls = [[1], [2], [3]]\<rparr>)"
  using miss_step [of 3 "\<lparr>func = (\<lambda>args. Inr (hd args * 10) :: unit exn + nat), maxsize = 2,
          cache = [(1, 10), (2, 20)], hits = 4, misses = 2, calls = [[1], [2]]\<rparr>" "[]" 30]
  by (simp add: od_contains_def)

text \<open>
  C8. In a call with the arguments \<open>key # rest\<close> the loop stops after its first key,
  whatever keys follow. The presence test is on \<open>key\<close> alone: when \<open>key\<close> is in the
  cache the call does what the call with the single argument \<open>key\<close> does; when it is
  not, the wrapped function is invoked with all the arguments \<open>key # rest\<close>, and its
  result is stored under \<open>key\<close>. In both cases the keys of the cache after the call are
  among \<open>key\<close> and the keys before it, so no element of \<open>rest\<close> is stored as a key.
\<close>

theorem only_first_argument_is_key:
  "inner_loop w args (key # rest) = inner_loop w args [key] \<and>
   (od_contains key (cache w) \<longrightarrow> inner w (key # rest) = inner w [key]) \<and>
   (\<not> od_contains key (cache w) \<longrightarrow>
      calls (snd (inner w (key # rest))) = calls w @ [key # rest] \<and>
      misses (snd (inner w (key # rest))) = misses w + 1 \<and>
      hits (snd (inner w (key # rest))) = hits w \<and>
      (case func w (key # rest) of
         Inl e \<Rightarrow> inner w (key # rest) =
           (Inl e, w\<lparr>misses := misses w + 1, calls := calls w @ [key # rest]\<rparr>)
       | Inr v \<Rightarrow> inner w (key # rest) =
           (Inr (Some v),
            w\<lparr>cache := (if int (length (cache w @ [(key, v)])) > maxsize w
                         then tl (cache w @ [(key, v)]) else cache w @ [(key, v)]),
              misses := misses w + 1, calls := calls w @ [key # rest]\<rparr>))) \<and>
   set (map fst (cache (snd (inner w (key # rest))))) \<subseteq> insert key (set (map fst (cache w)))"
proof -
  have a: "inner_loop w args (key # rest) = inner_loop w args [key]" by simp
  have b: "od_contains key (cache w) \<longrightarrow> inner w (key # rest) = inner w [key]"
    by (rule impI) (rule inner_hit_any_args)
  have c: "\<not> od_contains key (cache w) \<longrightarrow>
      calls (snd (inner w (key # rest))) = calls w @ [key # rest] \<and>
      misses (snd (inner w (key # rest))) = misses w + 1 \<and>
      hits (snd (inner w (key # rest))) = hits w \<and>
      (case func w (key # rest) of
         Inl e \<Rightarrow> inner w (key # rest) =
           (Inl e, w\<lparr>misses := misses w + 1, calls := calls w @ [key # rest]\<rparr>)
       | Inr v \<Rightarrow> inner w (key # rest) =
           (Inr (Some v),
            w\<lparr>cache := (if int (length (cache w @ [(key, v)])) > maxsize w
                         then tl (cache w @ [(key, v)]) else cache w @ [(key, v)]),
              misses := misses w + 1, calls := calls w @ [key # rest]\<rparr>))"
  proof (intro impI)
    assume nc: "\<not> od_contains key (cache w)"
    show "calls (snd (inner w (key # rest))) = calls w @ [key # rest] \<and>
      misses (snd (inner w (key # rest))) = misses w + 1 \<and>
      hits (snd (inner w (key # rest))) = hits w \<and>
      (case func w (key # rest) of
         Inl e \<Rightarrow> inner w (key # rest) =
           (Inl e, w\<lparr>misses := misses w + 1, calls := calls w @ [key # rest]\<rparr>)
       | Inr v \<Rightarrow> inner w (key # rest) =
           (Inr (Some v),
            w\<lparr>cache := (if int (length (cache w @ [(key, v)])) > maxsize w
                         then tl (cache w @ [(key, v)]) else cache w @ [(key, v)]),
              misses := misses w + 1, calls := calls w @ [key # rest]\<rparr>))"
    proof (cases "func w (key # rest)")
      case (Inl e)
      note r = inner_miss_raise [OF nc Inl]
      show ?thesis unfolding r Inl by simp
    next
      case (Inr v)
      note r = inner_miss_ok [OF nc Inr]
      show ?thesis unfolding r Inr by simp
    qed
  qed
  show ?thesis by (rule conjI [OF a conjI [OF b conjI [OF c keys_inner]]])
qed

theorem only_first_argument_is_key_witness:
  "od_contains (1::nat) (cache \<lparr>func = (\<lambda>args. Inr (sum_list args) :: unit exn + nat), maxsize = 2,
       cache = [(1, 10), (2, 20)], hits = 0, misses = 2, calls = [[1], [2]]\<rparr>) \<and>
   inner \<lparr>func = (\<lambda>args. Inr (sum_list args) :: unit exn + nat), maxsize = 2,
       cache = [(1, 10), (2, 20)], hits = 0, misses = 2, calls = [[1], [2]]\<rparr> [1, 5] = inner \<lparr>func = (\<lambda>args. Inr (sum_list args) :: unit exn + nat), maxsize = 2,
       cache = [(1, 10), (2, 20)], hits = 0, misses = 2, calls = [[1], [2]]\<rparr> [1] \<and>
   \<not> od_contains (3::nat) (cache \<lparr>func = (\<lambda>args. Inr (sum_list args) :: unit exn + nat), maxsize = 2,
       cache = [(1, 10), (2, 20)], hits = 0, misses = 2, calls = [[1], [2]]\<rparr>) \<and>
   inner \<lparr>func = (\<lambda>args. Inr (sum_list args) :: unit exn + nat), maxsize = 2,
       cache = [(1, 10), (2, 20)], hits = 0, misses = 2, calls = [[1], [2]]\<rparr> [3, 4] =
     (Inr (Some 7),
      \<lparr>func = (\<lambda>args. Inr (sum_list args)), maxsize = 2,
       cache = [(2, 20), (3, 7)], hits = 0, misses = 3, calls = [[1], [2], [3, 4]]\<rparr>) \<and>
   set (map fst (cache (snd (inner \<lparr>func = (\<lambda>args. Inr (sum_list args) :: unit exn + nat), maxsize = 2,
       cache = [(1, 10), (2, 20)], hits = 0, misses = 2, calls = [[1], [2]]\<rparr> [3, 4])))) \<subseteq> insert 3 (set (map fst (cache \<lparr>func = (\<lambda>args. Inr (sum_list args) :: unit exn + nat), maxsize = 2,
       cache = [(1, 10), (2, 20)], hits = 0, misses = 2, calls = [[1], [2]]\<rparr>)))"
  using only_first_argument_is_key [of "\<lparr>func = (\<lambda>args. Inr (sum_list args) :: unit exn + nat), maxsize = 2,
       cache = [(1, 10), (2, 20)], hits = 0, misses = 2, calls = [[1], [2]]\<rparr>" "[]" 1 "[5]"]
        only_first_argument_is_key [of "\<lparr>func = (\<lambda>args. Inr (sum_list args) :: unit exn + nat), maxsize = 2,
       cache = [(1, 10), (2, 20)], hits = 0, misses = 2, calls = [[1], [2]]\<rparr>" "[]" 3 "[4]"]
  by (simp add: od_contains_def)

text \<open>
  C2. On a wrapper constructed with a positive \<open>maxsize\<close>, after every call of every
  sequence of calls (with or without exception, with any arguments) the cache holds at
  most \<open>maxsize\<close> items: this holds of the closure after each call of the sequence
  (\<open>trace\<close>) and of the final one (\<open>exec\<close>).
\<close>

theorem capacity_invariant:
  assumes "0 < n"
  shows "int (length (cache (exec (lru_cache f (Some n)) argss))) \<le> n \<and>
         (\<forall>x \<in> set (trace (lru_cache f (Some n)) argss). int (length (cache (snd x))) \<le> n)"
proof -
  let ?w0 = "lru_cache f (Some n)"
  have m0: "maxsize ?w0 = n" by (simp add: lru_cache_def)
  have i0: "lru_inv ?w0" by (rule lru_inv_lru_cache)
  have "lru_inv (exec ?w0 argss)" using i0 by (rule lru_inv_exec)
  moreover have "maxsize (exec ?w0 argss) = n" using m0 by (simp add: frame_exec)
  ultimately have a: "int (length (cache (exec ?w0 argss))) \<le> n"
    using assms lru_inv_size [of "exec ?w0 argss"] by simp
  have b: "\<forall>x \<in> set (trace ?w0 argss). int (length (cache (snd x))) \<le> n"
  proof
    fix x assume "x \<in> set (trace ?w0 argss)"
    from lru_inv_trace [OF i0 this] have "lru_inv (snd x)" and "maxsize (snd x) = n"
      using m0 by simp_all
    then show "int (length (cache (snd x))) \<le> n"
      using assms lru_inv_size [of "snd x"] by simp
  qed
  from a b show ?thesis ..
qed

theorem capacity_invariant_witness:
  "(0::int) < 2 \<and>
   int (length (cache (exec (lru_cache (\<lambda>args. Inr (hd args) :: unit exn + nat) (Some 2))
                         [[1::nat], [2], [3]]))) \<le> 2 \<and>
   list_all (\<lambda>x. int (length (cache (snd x))) \<le> 2)
     (trace (lru_cache (\<lambda>args. Inr (hd args) :: unit exn + nat) (Some 2))
        [[1::nat], [2], [3]])"
  using capacity_invariant [of 2 "\<lambda>args. Inr (hd args) :: unit exn + nat" "[[1::nat], [2], [3]]"]
  by (simp add: list_all_iff)

text \<open>
  C5. On a new wrapper, in every sequence of calls that each have at least one
  argument (a key), after the first \<open>j\<close> calls hits plus misses is \<open>j\<close>, and the hit
  counter and the miss counter after the first \<open>i\<close> calls are at most what they are
  after the first \<open>j\<close> calls, for \<open>i \<le> j\<close>. A call in which the wrapped function
  raises counts as a miss.
\<close>

theorem counters_monotone_and_sum:
  assumes "list_all (\<lambda>args. args \<noteq> []) argss" and "i \<le> j" and "j \<le> length argss"
  shows "hits (exec (lru_cache f m) (take j argss)) + misses (exec (lru_cache f m) (take j argss)) = j \<and>
         hits (exec (lru_cache f m) (take i argss)) \<le> hits (exec (lru_cache f m) (take j argss)) \<and>
         misses (exec (lru_cache f m) (take i argss)) \<le> misses (exec (lru_cache f m) (take j argss))"
proof -
  let ?w0 = "lru_cache f m"
  have "list_all (\<lambda>args. args \<noteq> []) (take j argss)"
    using assms(1) by (auto simp: list_all_iff dest: in_set_takeD)
  then have "filter (\<lambda>args. args \<noteq> []) (take j argss) = take j argss"
    by (simp add: list_all_iff)
  then have "hits (exec ?w0 (take j argss)) + misses (exec ?w0 (take j argss)) =
      hits ?w0 + misses ?w0 + length (take j argss)"
    using counters_sum_exec [of ?w0 "take j argss"] by simp
  then have s: "hits (exec ?w0 (take j argss)) + misses (exec ?w0 (take j argss)) = j"
    using assms(3) by (simp add: lru_cache_def)
  have "take j argss = take i argss @ drop i (take j argss)"
    using assms(2) append_take_drop_id [of i "take j argss"] by (simp add: min_def)
  then have "exec ?w0 (take j argss) = exec (exec ?w0 (take i argss)) (drop i (take j argss))"
    using exec_append [of ?w0 "take i argss" "drop i (take j argss)"] by simp
  then have "hits (exec ?w0 (take i argss)) \<le> hits (exec ?w0 (take j argss))"
    and "misses (exec ?w0 (take i argss)) \<le> misses (exec ?w0 (take j argss))"
    using counters_mono_exec [of "exec ?w0 (take i argss)" "drop i (take j argss)"] by simp_all
  with s show ?thesis by simp
qed

theorem counters_monotone_and_sum_witness:
  "list_all (\<lambda>args. args \<noteq> []) [[1::nat], [2], [1]] \<and> (1::nat) \<le> 3 \<and>
   3 \<le> length [[1::nat], [2], [1]] \<and>
   hits (exec (lru_cache (\<lambda>args. Inr (hd args) :: unit exn + nat) (Some 2))
          (take 3 [[1::nat], [2], [1]])) +
   misses (exec (lru_cache (\<lambda>args. Inr (hd args) :: unit exn + nat) (Some 2))
          (take 3 [[1::nat], [2], [1]])) = 3 \<and>
   hits (exec (lru_cache (\<lambda>args. Inr (hd args) :: unit exn + nat) (Some 2))
          (take 1 [[1::nat], [2], [1]])) \<le>
   hits (exec (lru_cache (\<lambda>args. Inr (hd args) :: unit exn + nat) (Some 2))
          (take 3 [[1::nat], [2], [1]])) \<and>
   misses (exec (lru_cache (\<lambda>args. Inr (hd args) :: unit exn + nat) (Some 2))
          (take 1 [[1::nat], [2], [1]])) \<le>
   misses (exec (lru_cache (\<lambda>args. Inr (hd args) :: unit exn + nat) (Some 2))
          (take 3 [[1::nat], [2], [1]]))"
  using counters_monotone_and_sum [of "[[1::nat], [2], [1]]" 1 3
      "\<lambda>args. Inr (hd args) :: unit exn + nat" "Some 2"]
  by simp

text \<open>
  C4. In every state \<open>w\<close> that a wrapper reaches from its construction by some sequence
  of calls, a call whose key (first argument) is in the cache with the value \<open>v\<close>
  returns \<open>v\<close>, adds one to the hit counter, moves the item of the key to the most
  recently used end, leaving the other items in their order, and does not invoke the
  wrapped function (\<open>calls\<close> and the miss counter are unchanged). Consequently any
  number of further calls \<open>hs\<close> with that key all return \<open>v\<close>, leave the number of
  items and the invocations of the wrapped function as they are, and add one hit each.
\<close>

theorem hit_step:
  assumes "w = exec (lru_cache f m) argss" and "map_of (cache w) key = Some v"
    and "list_all (\<lambda>a. a \<noteq> [] \<and> hd a = key) hs"
  shows "inner w (key # rest) =
           (Inr (Some v),
            w\<lparr>cache := filter (\<lambda>p. fst p \<noteq> key) (cache w) @ [(key, v)],
              hits := hits w + 1\<rparr>) \<and>
         length (cache (exec w hs)) = length (cache w) \<and>
         calls (exec w hs) = calls w \<and>
         hits (exec w hs) = hits w + length hs \<and>
         misses (exec w hs) = misses w \<and>
         map fst (trace w hs) = replicate (length hs) (Inr (Some v))"
proof -
  have i: "lru_inv w" unfolding assms(1) using lru_inv_lru_cache by (rule lru_inv_exec)
  from inner_hit [OF i assms(2)] repeated_hits [OF i assms(2,3)] show ?thesis by simp
qed

theorem hit_step_witness:
  "map_of (cache (exec (lru_cache (\<lambda>args. Inr (hd args * 10) :: unit exn + nat) (Some 2))
                   [[1::nat], [2]])) 1 = Some 10 \<and>
   list_all (\<lambda>a. a \<noteq> [] \<and> hd a = 1) [[1::nat], [1, 7]] \<and>
   inner (exec (lru_cache (\<lambda>args. Inr (hd args * 10) :: unit exn + nat) (Some 2))
            [[1::nat], [2]]) [1, 5] =
     (Inr (Some 10),
      \<lparr>func = (\<lambda>args. Inr (hd args * 10)), maxsize = 2,
       cache = [(2, 20), (1, 10)], hits = 1, misses = 2, calls = [[1], [2]]\<rparr>) \<and>
   hits (exec (exec (lru_cache (\<lambda>args. Inr (hd args * 10) :: unit exn + nat) (Some 2))
            [[1::nat], [2]]) [[1], [1, 7]]) = 2 \<and>
   calls (exec (exec (lru_cache (\<lambda>args. Inr (hd args * 10) :: unit exn + nat) (Some 2))
            [[1::nat], [2]]) [[1], [1, 7]]) = [[1], [2]]"
proof -
  let ?f = "\<lambda>args. Inr (hd args * 10) :: unit exn + nat"
  have w: "exec (lru_cache ?f (Some 2)) [[1::nat], [2]] =
      \<lparr>func = ?f, maxsize = 2, cache = [(1, 10), (2, 20)], hits = 0, misses = 2,
       calls = [[1], [2]]\<rparr>"
    by (simp add: lru_cache_def inner_def inner_body_def od_contains_def add_to_cache_def
        od_move_to_end_def)
  show ?thesis
    using hit_step [of "exec (lru_cache ?f (Some 2)) [[1::nat], [2]]" ?f "Some 2"
        "[[1::nat], [2]]" 1 10 "[[1::nat], [1, 7]]" "[5]", OF refl]
    unfolding w by simp
qed

text \<open>
  C7. On a wrapper with \<open>maxsize\<close> 1 and for two different keys \<open>K1\<close> and \<open>K2\<close> on
  which the wrapped function returns, after the calls with \<open>K1\<close> and then with \<open>K2\<close>
  the cache holds the item of \<open>K2\<close> and nothing else (the statistics are 0 hits,
  2 misses, size 1), \<open>K1\<close> is not in it, and the next call with \<open>K1\<close> is a miss: the
  miss counter becomes 3, the wrapped function is invoked again, and \<open>K1\<close> evicts \<open>K2\<close>.
\<close>

theorem capacity_one:
  assumes "K1 \<noteq> K2" and "f [K1] = Inr v1" and "f [K2] = Inr v2"
  shows "cache (exec (lru_cache f (Some 1)) [[K1], [K2]]) = [(K2, v2)] \<and>
         cache_info (exec (lru_cache f (Some 1)) [[K1], [K2]]) = CacheInfo 0 2 1 1 \<and>
         \<not> od_contains K1 (cache (exec (lru_cache f (Some 1)) [[K1], [K2]])) \<and>
         inner (exec (lru_cache f (Some 1)) [[K1], [K2]]) [K1] =
           (Inr (Some v1),
            \<lparr>func = f, maxsize = 1, cache = [(K1, v1)], hits = 0, misses = 3,
             calls = [[K1], [K2], [K1]]\<rparr>)"
proof -
  have w: "exec (lru_cache f (Some 1)) [[K1], [K2]] =
      \<lparr>func = f, maxsize = 1, cache = [(K2, v2)], hits = 0, misses = 2,
       calls = [[K1], [K2]]\<rparr>"
    using assms assms(1) [symmetric]
    by (simp add: lru_cache_def inner_def inner_body_def od_contains_def add_to_cache_def
        od_move_to_end_def od_popitem_first_def)
  show ?thesis
    unfolding w using assms assms(1) [symmetric]
    by (simp add: cache_info_def inner_def inner_body_def od_contains_def add_to_cache_def
        od_move_to_end_def od_popitem_first_def)
qed

theorem capacity_one_witness:
  "(1::nat) \<noteq> 2 \<and>
   cache (exec (lru_cache (\<lambda>args. Inr (hd args * 10) :: unit exn + nat) (Some 1))
            [[1::nat], [2]]) = [(2, 20)] \<and>
   cache_info (exec (lru_cache (\<lambda>args. Inr (hd args * 10) :: unit exn + nat) (Some 1))
            [[1::nat], [2]]) = CacheInfo 0 2 1 1 \<and>
   \<not> od_contains 1 (cache (exec (lru_cache (\<lambda>args. Inr (hd args * 10) :: unit exn + nat)
            (Some 1)) [[1::nat], [2]])) \<and>
   inner (exec (lru_cache (\<lambda>args. Inr (hd args * 10) :: unit exn + nat) (Some 1))
            [[1::nat], [2]]) [1] =
     (Inr (Some 10),
      \<lparr>func = (\<lambda>args. Inr (hd args * 10)), maxsize = 1, cache = [(1, 10)], hits = 0,
       misses = 3, calls = [[1], [2], [1]]\<rparr>)"
  using capacity_one [of "1::nat" 2 "\<lambda>args. Inr (hd args * 10) :: unit exn + nat" 10 20]
  by (simp add: od_contains_def)

text \<open>
  C1. On a wrapper with \<open>maxsize\<close> 2 and for three different keys \<open>A\<close>, \<open>B\<close>, \<open>C\<close> on
  which the wrapped function returns, the calls with \<open>A\<close>, \<open>B\<close>, \<open>A\<close>, \<open>C\<close>, \<open>B\<close> give,
  call by call: the returned value, the statistics \<open>CacheInfo hits misses maxsize currsize\<close>,
  the keys in the cache from least to most recently used, and the invocations of the
  wrapped function so far. The statistics are (0,1,2,1), (0,2,2,2), (1,2,2,2), (1,3,2,2),
  (1,4,2,2); the third call is the only hit (no new invocation); the fourth call leaves
  \<open>A\<close> and \<open>C\<close>, so it is \<open>B\<close> that it evicts; the fifth invokes the function on \<open>B\<close> again.
\<close>

theorem lru_eviction_order:
  assumes "A \<noteq> B" and "A \<noteq> C" and "B \<noteq> C"
    and "f [A] = Inr a" and "f [B] = Inr b" and "f [C] = Inr c"
  shows "map (\<lambda>x. (fst x, cache_info (snd x), map fst (cache (snd x)), calls (snd x)))
           (trace (lru_cache f (Some 2)) [[A], [B], [A], [C], [B]]) =
         [(Inr (Some a), CacheInfo 0 1 2 1, [A], [[A]]),
          (Inr (Some b), CacheInfo 0 2 2 2, [A, B], [[A], [B]]),
          (Inr (Some a), CacheInfo 1 2 2 2, [B, A], [[A], [B]]),
          (Inr (Some c), CacheInfo 1 3 2 2, [A, C], [[A], [B], [C]]),
          (Inr (Some b), CacheInfo 1 4 2 2, [C, B], [[A], [B], [C], [B]])]"
  using assms assms(1) [symmetric] assms(2) [symmetric] assms(3) [symmetric]
  by (simp add: lru_cache_def cache_info_def inner_def inner_body_def od_contains_def
      od_getitem_def add_to_cache_def od_move_to_end_def od_popitem_first_def)

theorem lru_eviction_order_witness:
  "(1::nat) \<noteq> 2 \<and> (1::nat) \<noteq> 3 \<and> (2::nat) \<noteq> 3 \<and>
   map (\<lambda>x. (fst x, cache_info (snd x), map fst (cache (snd x)), calls (snd x)))
     (trace (lru_cache (\<lambda>args. Inr (hd args * 10) :: unit exn + nat) (Some 2))
        [[1::nat], [2], [1], [3], [2]]) =
   [(Inr (Some 10), CacheInfo 0 1 2 1, [1], [[1]]),
    (Inr (Some 20), CacheInfo 0 2 2 2, [1, 2], [[1], [2]]),
    (Inr (Some 10), CacheInfo 1 2 2 2, [2, 1], [[1], [2]]),
    (Inr (Some 30), CacheInfo 1 3 2 2, [1, 3], [[1], [2], [3]]),
    (Inr (Some 20), CacheInfo 1 4 2 2, [3, 2], [[1], [2], [3], [2]])]"
  using lru_eviction_order [of "1::nat" 2 3 "\<lambda>args. Inr (hd args * 10) :: unit exn + nat"
      10 20 30]
  by simp

end
